theory Spec2Isabelle
  imports Main
begin

section \<open>Data model of \<open>agentscope/models/response.py\<close>\<close>

text \<open>
  The three pydantic dataclasses of the module. Field names that clash with Isabelle
  keywords or HOL constants carry a prefix: \<open>fn_\<close> for \<open>FunctonChunk\<close>, \<open>tc_\<close> for
  \<open>ToolCallChunk\<close>, \<open>sc_\<close> for \<open>StreamChunk\<close>.
\<close>

record functon_chunk =
  fn_name :: string
  fn_arguments :: string

record tool_call_chunk =
  tc_index :: int
  tc_id :: string
  tc_type :: string
  tc_function :: "functon_chunk option"

record stream_chunk =
  sc_text :: string
  sc_tool_calls :: "tool_call_chunk list option"

text \<open>
  The stream is declared as \<open>Generator[str | StreamChunk, None, None]\<close>: an item is a bare
  string or a \<open>StreamChunk\<close>. The code tells them apart with \<open>hasattr\<close>.
\<close>

datatype chunk = Plain string | Structured stream_chunk

text \<open>
  \<open>ToolUseBlock\<close> is imported from \<open>..message\<close>; the code builds it with the four keyword
  arguments below. The type of \<open>input\<close> is whatever \<open>json.loads\<close> returns and stays a
  type parameter.
\<close>

record 'j tool_use_block =
  tb_type :: string
  tb_id :: string
  tb_name :: string
  tb_input :: 'j

text \<open>
  The underlying generator: the items it has not produced yet, and the number of times
  \<open>next\<close> has been called on it (each call is one pull, also the call that finds the
  generator exhausted). The generator is taken to produce finitely many items and not to
  raise while it produces them.
\<close>

record chunk_gen =
  pending :: "chunk list"
  pulls :: nat

text \<open>Python's \<open>next(gen)\<close>: \<open>None\<close> stands for \<open>StopIteration\<close>.\<close>

definition gen_next :: "chunk_gen \<Rightarrow> chunk option \<times> chunk_gen" where
  "gen_next g =
     (case pending g of
        [] \<Rightarrow> (None, g\<lparr>pulls := pulls g + 1\<rparr>)
      | c # cs \<Rightarrow> (Some c, g\<lparr>pending := cs, pulls := pulls g + 1\<rparr>))"

text \<open>
  The attributes of a \<open>ModelResponse\<close>. \<open>embedding\<close>, \<open>image_urls\<close>, \<open>raw\<close> and \<open>parsed\<close>
  are passed through untouched, so their values are of an arbitrary type \<open>'a\<close>.
\<close>

record ('a, 'j) model_response =
  text_field :: "string option"
  embedding :: "'a option"
  image_urls :: "string list option"
  raw :: 'a
  parsed :: "'a option"
  stream_field :: "chunk_gen option"
  tool_calls :: "'j tool_use_block list option"
  tool_call_chunk_list :: "tool_call_chunk list option"
  is_stream_exhausted_field :: bool

datatype error = RuntimeError | AttributeError | JSONDecodeError | TypeError

section \<open>Construction and the plain accessors\<close>

text \<open>
  \<open>__init__\<close>. A generator object is truthy whatever it still holds, so \<open>if stream\<close> is
  \<open>stream is not None\<close>; \<open>not tool_calls\<close> holds for \<open>None\<close> and for the empty list.
\<close>

definition init_response ::
  "string option \<Rightarrow> 'a option \<Rightarrow> string list option \<Rightarrow> 'a \<Rightarrow> 'a option \<Rightarrow>
   chunk_gen option \<Rightarrow> 'j tool_use_block list option \<Rightarrow> ('a, 'j) model_response" where
  "init_response txt emb imgs rw prs strm tcs =
     \<lparr> text_field = txt, embedding = emb, image_urls = imgs, raw = rw, parsed = prs,
       stream_field = strm,
       tool_calls = (if strm \<noteq> None \<and> (tcs = None \<or> tcs = Some []) then Some [] else tcs),
       tool_call_chunk_list = None,
       is_stream_exhausted_field = False \<rparr>"

text \<open>The \<open>text\<close> setter.\<close>

definition set_text :: "string \<Rightarrow> ('a, 'j) model_response \<Rightarrow> ('a, 'j) model_response" where
  "set_text v r = r\<lparr>text_field := Some v\<rparr>"

text \<open>The \<open>is_stream_exhausted\<close> property.\<close>

definition is_stream_exhausted :: "('a, 'j) model_response \<Rightarrow> bool" where
  "is_stream_exhausted r = is_stream_exhausted_field r"

text \<open>A generator that starts with the given items and has not been pulled yet.\<close>

definition fresh_gen :: "chunk list \<Rightarrow> chunk_gen" where
  "fresh_gen cs = \<lparr> pending = cs, pulls = 0 \<rparr>"

section \<open>The stream wrapper as a coroutine\<close>

text \<open>
  \<open>_stream_generator_wrapper\<close> is a generator function. Its body runs only when the
  wrapper is advanced, and it is suspended at one of its two \<open>yield\<close> statements between
  two advances. The control points:
  \<^item> \<open>Fresh\<close>: created, body not entered yet;
  \<^item> \<open>Suspended item\<close>: stopped at \<open>yield False, last_text\<close> inside the \<open>for\<close> loop, with
    the loop variable \<open>item\<close> already pulled from the underlying generator;
  \<^item> \<open>AfterFinal\<close>: stopped at \<open>yield True, last_text\<close>;
  \<^item> \<open>Finished\<close>: the body has returned or raised.
\<close>

datatype wrapper_pc = Fresh | Suspended chunk | AfterFinal | Finished

datatype advance = Yield "bool \<times> string" | Stop | Raise error

text \<open>
  The two \<open>hasattr\<close> tests on an item: a \<open>StreamChunk\<close> has both attributes (its
  \<open>tool_calls\<close> may be \<open>None\<close>), a bare string has neither.
\<close>

definition absorb :: "chunk \<Rightarrow> ('a, 'j) model_response \<Rightarrow> string \<times> ('a, 'j) model_response" where
  "absorb c r =
     (case c of
        Plain s \<Rightarrow> (s, r)
      | Structured sc \<Rightarrow> (sc_text sc, r\<lparr>tool_call_chunk_list := sc_tool_calls sc\<rparr>))"

text \<open>
  The loop over \<open>self.tool_call_chunk_list\<close> after the stream has ended. \<open>loads\<close> stands
  for \<open>json.loads\<close> (\<open>None\<close> when it raises \<open>JSONDecodeError\<close>). Each call of
  \<open>self.tool_calls.append\<close> mutates the list at once, so the entries before a failing one
  stay appended.
\<close>

fun append_tool_calls ::
  "(string \<Rightarrow> 'j option) \<Rightarrow> tool_call_chunk list \<Rightarrow> ('a, 'j) model_response \<Rightarrow>
   error option \<times> ('a, 'j) model_response" where
  "append_tool_calls loads [] r = (None, r)"
| "append_tool_calls loads (t # ts) r =
     (case tool_calls r of
        None \<Rightarrow> (Some AttributeError, r)
      | Some tcs \<Rightarrow>
          (case tc_function t of
             None \<Rightarrow> (Some AttributeError, r)
           | Some f \<Rightarrow>
               (case loads (fn_arguments f) of
                  None \<Rightarrow> (Some JSONDecodeError, r)
                | Some j \<Rightarrow>
                    append_tool_calls loads ts
                      (r\<lparr>tool_calls := Some (tcs @
                         [\<lparr> tb_type = ''tool_use'', tb_id = tc_id t,
                            tb_name = fn_name f, tb_input = j \<rparr>])\<rparr>))))"

text \<open>\<open>if self.tool_call_chunk_list:\<close> is false for \<open>None\<close> and for the empty list.\<close>

definition finalize ::
  "(string \<Rightarrow> 'j option) \<Rightarrow> ('a, 'j) model_response \<Rightarrow> error option \<times> ('a, 'j) model_response" where
  "finalize loads r =
     (case tool_call_chunk_list r of
        None \<Rightarrow> (None, r)
      | Some ts \<Rightarrow> append_tool_calls loads ts r)"

text \<open>
  The head of the \<open>for item in self._stream\<close> loop, entered with the current
  \<open>last_text\<close>: pull once; with an item, store \<open>last_text\<close> and yield it as not final;
  at the end of the stream, store \<open>last_text\<close>, build the tool calls and yield it as
  final. Nothing in the class resets \<open>_stream\<close>, so a wrapper that has entered the loop
  always finds the generator; the branch without one stands for Python's \<open>TypeError\<close> on
  iterating \<open>None\<close>.
\<close>

definition loop_head ::
  "(string \<Rightarrow> 'j option) \<Rightarrow> string \<Rightarrow> ('a, 'j) model_response \<Rightarrow>
   advance \<times> wrapper_pc \<times> ('a, 'j) model_response" where
  "loop_head loads last_text r =
     (case stream_field r of
        None \<Rightarrow> (Raise TypeError, Finished, r)
      | Some g \<Rightarrow>
          (case gen_next g of
             (Some item, g') \<Rightarrow>
               (Yield (False, last_text), Suspended item,
                r\<lparr>stream_field := Some g', text_field := Some last_text\<rparr>)
           | (None, g') \<Rightarrow>
               (case finalize loads (r\<lparr>stream_field := Some g', text_field := Some last_text\<rparr>) of
                  (Some e, r') \<Rightarrow> (Raise e, Finished, r')
                | (None, r') \<Rightarrow> (Yield (True, last_text), AfterFinal, r'))))"

text \<open>
  One \<open>next\<close> on a generator that \<open>_stream_generator_wrapper()\<close> returned, from the control
  point \<open>pc\<close> where that generator stands.
\<close>

definition stream_generator_wrapper ::
  "(string \<Rightarrow> 'j option) \<Rightarrow> wrapper_pc \<Rightarrow> ('a, 'j) model_response \<Rightarrow>
   advance \<times> wrapper_pc \<times> ('a, 'j) model_response" where
  "stream_generator_wrapper loads pc r =
     (case pc of
        Fresh \<Rightarrow>
          (if is_stream_exhausted_field r then (Raise RuntimeError, Finished, r)
           else
             (case stream_field r of
                None \<Rightarrow> (Stop, Finished, r)
              | Some g \<Rightarrow>
                  (case gen_next g of
                     (None, g') \<Rightarrow> (Stop, Finished, r\<lparr>stream_field := Some g'\<rparr>)
                   | (Some last_item, g') \<Rightarrow>
                       (case absorb last_item (r\<lparr>stream_field := Some g'\<rparr>) of
                          (last_text, r') \<Rightarrow> loop_head loads last_text r'))))
      | Suspended item \<Rightarrow>
          (case absorb item r of (txt, r') \<Rightarrow> loop_head loads txt r')
      | AfterFinal \<Rightarrow> (Stop, Finished, r)
      | Finished \<Rightarrow> (Stop, Finished, r))"

text \<open>
  The \<open>stream\<close> property: \<open>None\<close> without a stream, a new wrapper otherwise. Creating the
  wrapper runs none of its body.
\<close>

definition stream_view :: "('a, 'j) model_response \<Rightarrow> wrapper_pc option" where
  "stream_view r = (case stream_field r of None \<Rightarrow> None | Some g \<Rightarrow> Some Fresh)"

section \<open>Running a wrapper to its end\<close>

text \<open>
  A bound on the advances a wrapper can still make: the items the underlying generator
  still holds, plus the advances that pull nothing.
\<close>

definition rank :: "wrapper_pc \<Rightarrow> ('a, 'j) model_response \<Rightarrow> nat" where
  "rank pc r =
     (case pc of
        Finished \<Rightarrow> 0
      | AfterFinal \<Rightarrow> 1
      | _ \<Rightarrow> 2 + (case stream_field r of None \<Rightarrow> 0 | Some g \<Rightarrow> length (pending g)))"

lemma rank_text_field: "rank pc (r\<lparr>text_field := t\<rparr>) = rank pc r"
  by (cases pc) (simp_all add: rank_def)

lemma absorb_stream_field: "stream_field (snd (absorb c r)) = stream_field r"
  by (cases c) (simp_all add: absorb_def)

lemma append_tool_calls_stream_field:
  "stream_field (snd (append_tool_calls loads ts r)) = stream_field r"
  by (induction loads ts r rule: append_tool_calls.induct) (simp_all split: option.splits)

lemma finalize_stream_field: "stream_field (snd (finalize loads r)) = stream_field r"
  by (simp add: finalize_def append_tool_calls_stream_field split: option.splits)

lemma loop_head_rank:
  assumes "loop_head loads t r = (Yield p, pc', r')"
    and "stream_field r = Some g"
  shows "rank pc' r' < 2 + length (pending g)"
proof (cases "pending g")
  case Nil
  with assms have "pc' = AfterFinal"
    by (auto simp: loop_head_def gen_next_def split: prod.splits option.splits)
  then show ?thesis by (simp add: rank_def)
next
  case (Cons c cs)
  with assms have "stream_field r' = Some (g\<lparr>pending := cs, pulls := pulls g + 1\<rparr>)"
    by (auto simp: loop_head_def gen_next_def)
  then show ?thesis using Cons by (cases pc') (simp_all add: rank_def)
qed

lemma stream_generator_wrapper_rank:
  assumes "stream_generator_wrapper loads pc r = (Yield p, pc', r')"
  shows "rank pc' r' < rank pc r"
proof (cases pc)
  case Fresh
  with assms obtain g c g' where g: "stream_field r = Some g"
    and n: "gen_next g = (Some c, g')"
    and l: "loop_head loads (fst (absorb c (r\<lparr>stream_field := Some g'\<rparr>)))
              (snd (absorb c (r\<lparr>stream_field := Some g'\<rparr>))) = (Yield p, pc', r')"
    by (auto simp: stream_generator_wrapper_def split: if_splits option.splits prod.splits)
  have "stream_field (snd (absorb c (r\<lparr>stream_field := Some g'\<rparr>))) = Some g'"
    by (simp add: absorb_stream_field)
  from loop_head_rank [OF l this] have "rank pc' r' < 2 + length (pending g')" .
  moreover from n have "length (pending g') < length (pending g)"
    by (auto simp: gen_next_def split: list.splits)
  ultimately show ?thesis using Fresh g by (simp add: rank_def)
next
  case (Suspended item)
  with assms have l: "loop_head loads (fst (absorb item r)) (snd (absorb item r)) = (Yield p, pc', r')"
    by (auto simp: stream_generator_wrapper_def split: prod.splits)
  show ?thesis
  proof (cases "stream_field r")
    case None
    then have "stream_field (snd (absorb item r)) = None" by (simp add: absorb_stream_field)
    with l show ?thesis by (simp add: loop_head_def)
  next
    case (Some g)
    then have "stream_field (snd (absorb item r)) = Some g" by (simp add: absorb_stream_field)
    from loop_head_rank [OF l this] show ?thesis using Suspended Some by (simp add: rank_def)
  qed
next
  case AfterFinal
  with assms show ?thesis by (simp add: stream_generator_wrapper_def)
next
  case Finished
  with assms show ?thesis by (simp add: stream_generator_wrapper_def)
qed

text \<open>The number of \<open>next\<close> calls the underlying generator has received.\<close>

definition pulls_of :: "('a, 'j) model_response \<Rightarrow> nat" where
  "pulls_of r = (case stream_field r of None \<Rightarrow> 0 | Some g \<Rightarrow> pulls g)"

text \<open>
  A \<open>for\<close> loop over a wrapper, run until the wrapper stops or raises. With \<open>store\<close> the
  loop body is the one of the \<open>text\<close> property, \<open>self._text = chunk\<close>; without it the body
  only looks. The result lists every pair received together with the value \<open>_text\<close> had
  and the number of pulls made when the pair arrived, then the exception that ended the
  loop, if any, and the response as the loop left it.
\<close>

type_synonym arrival = "(bool \<times> string) \<times> string option \<times> nat"

function drive ::
  "(string \<Rightarrow> 'j option) \<Rightarrow> bool \<Rightarrow> wrapper_pc \<Rightarrow> ('a, 'j) model_response \<Rightarrow>
   arrival list \<times> error option \<times> ('a, 'j) model_response" where
  "drive loads store pc r =
     (case stream_generator_wrapper loads pc r of
        (Yield p, pc', r') \<Rightarrow>
          (case drive loads store pc' (if store then r'\<lparr>text_field := Some (snd p)\<rparr> else r') of
             (es, e, r'') \<Rightarrow> ((p, text_field r', pulls_of r') # es, e, r''))
      | (Stop, pc', r') \<Rightarrow> ([], None, r')
      | (Raise e, pc', r') \<Rightarrow> ([], Some e, r'))"
  by pat_completeness auto
termination
  apply (relation "measure (\<lambda>(loads, store, pc, r). rank pc r)")
   apply simp
  apply (auto simp: rank_text_field dest: stream_generator_wrapper_rank [OF sym])
  done

declare drive.simps [simp del]

text \<open>What a caller sees who iterates \<open>response.stream\<close> to its end.\<close>

definition iterate_stream ::
  "(string \<Rightarrow> 'j option) \<Rightarrow> ('a, 'j) model_response \<Rightarrow>
   (arrival list \<times> error option \<times> ('a, 'j) model_response) option" where
  "iterate_stream loads r =
     (case stream_view r of None \<Rightarrow> None | Some pc \<Rightarrow> Some (drive loads False pc r))"

text \<open>
  The getter of the \<open>text\<close> property. It asks for \<open>self.stream\<close> twice, once for the test
  and once for the loop; both see the same \<open>_stream\<close>, and only the second wrapper is
  advanced.
\<close>

definition get_text ::
  "(string \<Rightarrow> 'j option) \<Rightarrow> ('a, 'j) model_response \<Rightarrow>
   (error + string option) \<times> ('a, 'j) model_response" where
  "get_text loads r =
     (if text_field r = None then
        (case stream_view r of
           None \<Rightarrow> (Inr (text_field r), r)
         | Some pc \<Rightarrow>
             (case drive loads True pc r of
                (es, Some e, r') \<Rightarrow> (Inl e, r')
              | (es, None, r') \<Rightarrow> (Inr (text_field r'), r')))
      else (Inr (text_field r), r))"

text \<open>
  \<open>__str__\<close>. \<open>_is_json_serializable\<close> comes from \<open>..utils.common\<close>, \<open>str\<close> of the raw
  payload and \<open>json.dumps\<close> from Python; the three are parameters. \<open>dumps\<close> returns
  \<open>None\<close> where \<open>json.dumps\<close> raises \<open>TypeError\<close>. The dictionary is built in the order
  of the source: the raw payload is looked at first, then \<open>self.text\<close> is read.
\<close>

record 'a serialized_fields =
  sf_text :: "string option"
  sf_embedding :: "'a option"
  sf_image_urls :: "string list option"
  sf_parsed :: "'a option"
  sf_raw :: "'a + string"

definition to_str ::
  "('a \<Rightarrow> bool) \<Rightarrow> ('a \<Rightarrow> string) \<Rightarrow> ('a serialized_fields \<Rightarrow> string option) \<Rightarrow>
   (string \<Rightarrow> 'j option) \<Rightarrow> ('a, 'j) model_response \<Rightarrow>
   (error + string) \<times> ('a, 'j) model_response" where
  "to_str is_json_serializable str_of dumps loads r =
     (let raw' = (if is_json_serializable (raw r) then Inl (raw r) else Inr (str_of (raw r)))
      in case get_text loads r of
           (Inl e, r') \<Rightarrow> (Inl e, r')
         | (Inr t, r') \<Rightarrow>
             (case dumps \<lparr> sf_text = t, sf_embedding = embedding r',
                            sf_image_urls = image_urls r', sf_parsed = parsed r',
                            sf_raw = raw' \<rparr> of
                None \<Rightarrow> (Inl TypeError, r')
              | Some str \<Rightarrow> (Inr str, r')))"

section \<open>Vocabulary for the properties\<close>

text \<open>The text an item contributes.\<close>

definition chunk_text :: "chunk \<Rightarrow> string" where
  "chunk_text c = (case c of Plain s \<Rightarrow> s | Structured sc \<Rightarrow> sc_text sc)"

text \<open>
  The value of \<open>tool_call_chunk_list\<close> after the given items have been taken in, starting
  from \<open>acc\<close>: every structured item replaces it, a bare string leaves it.
\<close>

fun chunk_list_after ::
  "tool_call_chunk list option \<Rightarrow> chunk list \<Rightarrow> tool_call_chunk list option" where
  "chunk_list_after acc [] = acc"
| "chunk_list_after acc (Plain s # cs) = chunk_list_after acc cs"
| "chunk_list_after acc (Structured sc # cs) = chunk_list_after (sc_tool_calls sc) cs"

text \<open>The entries the loop after the stream runs over.\<close>

definition final_chunks :: "chunk list \<Rightarrow> tool_call_chunk list" where
  "final_chunks cs = (case chunk_list_after None cs of None \<Rightarrow> [] | Some ts \<Rightarrow> ts)"

text \<open>An entry that can be turned into a tool invocation, and the invocation.\<close>

definition decodable :: "(string \<Rightarrow> 'j option) \<Rightarrow> tool_call_chunk \<Rightarrow> bool" where
  "decodable loads t =
     (case tc_function t of None \<Rightarrow> False | Some f \<Rightarrow> loads (fn_arguments f) \<noteq> None)"

definition block_of :: "(string \<Rightarrow> 'j option) \<Rightarrow> tool_call_chunk \<Rightarrow> 'j tool_use_block" where
  "block_of loads t =
     \<lparr> tb_type = ''tool_use'', tb_id = tc_id t,
       tb_name = fn_name (the (tc_function t)),
       tb_input = the (loads (fn_arguments (the (tc_function t)))) \<rparr>"

text \<open>A generator pulled until it reported its end.\<close>

definition exhaust :: "chunk_gen \<Rightarrow> chunk_gen" where
  "exhaust g = g\<lparr>pending := [], pulls := pulls g + length (pending g) + 1\<rparr>"

text \<open>
  The pairs a run over items with the texts \<open>ds\<close> delivers, each with the value of \<open>_text\<close>
  and the number of pulls at its arrival, the first pair arriving after \<open>k\<close> pulls; the
  final pair only when building the tool invocations raised nothing.
\<close>

fun trace :: "nat \<Rightarrow> string list \<Rightarrow> bool \<Rightarrow> arrival list" where
  "trace k [] ok = []"
| "trace k [d] ok = (if ok then [((True, d), Some d, k)] else [])"
| "trace k (d # d' # ds) ok = ((False, d), Some d, k) # trace (Suc k) (d' # ds) ok"

text \<open>The three parts of a run's result.\<close>

definition emitted ::
  "arrival list \<times> error option \<times> ('a, 'j) model_response \<Rightarrow> (bool \<times> string) list" where
  "emitted res = map fst (fst res)"

definition raised ::
  "arrival list \<times> error option \<times> ('a, 'j) model_response \<Rightarrow> error option" where
  "raised res = fst (snd res)"

definition response_after ::
  "arrival list \<times> error option \<times> ('a, 'j) model_response \<Rightarrow> ('a, 'j) model_response" where
  "response_after res = snd (snd res)"

text \<open>The rest of a \<open>for\<close> loop after one advance of the wrapper.\<close>

definition resume ::
  "(string \<Rightarrow> 'j option) \<Rightarrow> bool \<Rightarrow> advance \<times> wrapper_pc \<times> ('a, 'j) model_response \<Rightarrow>
   arrival list \<times> error option \<times> ('a, 'j) model_response" where
  "resume loads store x =
     (case x of
        (Yield p, pc', r') \<Rightarrow>
          (case drive loads store pc' (if store then r'\<lparr>text_field := Some (snd p)\<rparr> else r') of
             (es, e, r'') \<Rightarrow> ((p, text_field r', pulls_of r') # es, e, r''))
      | (Stop, pc', r') \<Rightarrow> ([], None, r')
      | (Raise e, pc', r') \<Rightarrow> ([], Some e, r'))"

text \<open>
  The response when the loop of the wrapper has seen the end of the stream, before the tool
  invocations are built: \<open>t\<close> is the text of the item taken in before the loop, \<open>cs\<close> are
  the items the loop pulled.
\<close>

definition settle ::
  "string \<Rightarrow> chunk list \<Rightarrow> ('a, 'j) model_response \<Rightarrow> ('a, 'j) model_response" where
  "settle t cs r =
     r\<lparr>stream_field := map_option exhaust (stream_field r),
       text_field := Some (last (t # map chunk_text cs)),
       tool_call_chunk_list := chunk_list_after (tool_call_chunk_list r) cs\<rparr>"

text \<open>
  The same for a wrapper run from its creation over the items \<open>cs\<close>, at least one.
\<close>

definition drained ::
  "chunk list \<Rightarrow> ('a, 'j) model_response \<Rightarrow> ('a, 'j) model_response" where
  "drained cs r =
     r\<lparr>stream_field := map_option exhaust (stream_field r),
       text_field := Some (chunk_text (last cs)),
       tool_call_chunk_list := chunk_list_after (tool_call_chunk_list r) cs\<rparr>"

text \<open>
  A decoder for the examples below. It agrees with \<open>json.loads\<close> on the strings the
  examples hand to it: \<open>2\<close> and \<open>12\<close> are numbers, \<open>{"a":1}\<close> is an object (given here by
  the value of its only key), and \<open>1}\<close> and \<open>{"a":\<close> are rejected.
\<close>

definition sample_loads :: "string \<Rightarrow> int option" where
  "sample_loads s =
     (if s = ''2'' then Some 2
      else if s = ''12'' then Some 12
      else if s = ''{\"a\":1}'' then Some 1
      else None)"

text \<open>A fragment as the examples use it: index, identifier, function name, arguments.\<close>

definition fragment :: "int \<Rightarrow> string \<Rightarrow> string \<Rightarrow> string \<Rightarrow> tool_call_chunk" where
  "fragment i ident nm args =
     \<lparr> tc_index = i, tc_id = ident, tc_type = ''function'',
       tc_function = Some \<lparr> fn_name = nm, fn_arguments = args \<rparr> \<rparr>"

definition tool_chunk :: "string \<Rightarrow> tool_call_chunk list \<Rightarrow> chunk" where
  "tool_chunk t ts = Structured \<lparr> sc_text = t, sc_tool_calls = Some ts \<rparr>"

text \<open>A response built around a stream of the given items, every other argument left out.\<close>

definition streaming :: "chunk list \<Rightarrow> (unit, int) model_response" where
  "streaming cs = init_response None None None () None (Some (fresh_gen cs)) None"

text \<open>That response after its stream view has been run to the end once.\<close>

definition after_run :: "chunk list \<Rightarrow> (unit, int) model_response" where
  "after_run cs = response_after (the (iterate_stream sample_loads (streaming cs)))"

section \<open>What the loops do\<close>

subsection \<open>Frame properties\<close>

lemma absorb_eq:
  "absorb c r =
     (chunk_text c,
      r\<lparr>tool_call_chunk_list := chunk_list_after (tool_call_chunk_list r) [c]\<rparr>)"
  by (cases c) (simp_all add: absorb_def chunk_text_def)

lemma text_field_same: "text_field r = Some t \<Longrightarrow> r\<lparr>text_field := Some t\<rparr> = r"
  by (cases r) simp

lemma append_tool_calls_text_field:
  "text_field (snd (append_tool_calls loads ts r)) = text_field r"
  by (induction loads ts r rule: append_tool_calls.induct) (simp_all split: option.splits)

lemma append_tool_calls_flag:
  "is_stream_exhausted_field (snd (append_tool_calls loads ts r)) = is_stream_exhausted_field r"
  by (induction loads ts r rule: append_tool_calls.induct) (simp_all split: option.splits)

lemma append_tool_calls_chunk_list:
  "tool_call_chunk_list (snd (append_tool_calls loads ts r)) = tool_call_chunk_list r"
  by (induction loads ts r rule: append_tool_calls.induct) (simp_all split: option.splits)

lemma finalize_text_field: "text_field (snd (finalize loads r)) = text_field r"
  by (simp add: finalize_def append_tool_calls_text_field split: option.splits)

lemma finalize_flag:
  "is_stream_exhausted_field (snd (finalize loads r)) = is_stream_exhausted_field r"
  by (simp add: finalize_def append_tool_calls_flag split: option.splits)

lemma finalize_chunk_list:
  "tool_call_chunk_list (snd (finalize loads r)) = tool_call_chunk_list r"
  by (simp add: finalize_def append_tool_calls_chunk_list split: option.splits)

lemmas finalize_frame =
  finalize_text_field finalize_flag finalize_chunk_list finalize_stream_field

subsection \<open>One loop, advance by advance\<close>

lemma drive_resume: "drive loads store pc r = resume loads store (stream_generator_wrapper loads pc r)"
  by (subst drive.simps) (simp add: resume_def)

lemma resume_Yield:
  "resume loads store (Yield p, pc', r') =
     (case drive loads store pc' (if store then r'\<lparr>text_field := Some (snd p)\<rparr> else r') of
        (es, e, r'') \<Rightarrow> ((p, text_field r', pulls_of r') # es, e, r''))"
  by (simp add: resume_def)

lemma resume_Stop: "resume loads store (Stop, pc', r') = ([], None, r')"
  by (simp add: resume_def)

lemma resume_Raise: "resume loads store (Raise e, pc', r') = ([], Some e, r')"
  by (simp add: resume_def)

lemma drive_AfterFinal: "drive loads store AfterFinal r = ([], None, r)"
  by (simp add: drive_resume [of _ _ AfterFinal] stream_generator_wrapper_def resume_Stop)

lemma chunk_list_after_Cons:
  "chunk_list_after (chunk_list_after acc [c]) cs = chunk_list_after acc (c # cs)"
  by (cases c) simp_all

lemma trace_pairs:
  "ds \<noteq> [] \<Longrightarrow>
   map (\<lambda>(p, t, k). (p, t)) (trace k ds ok) =
     map (\<lambda>d. ((False, d), Some d)) (butlast ds) @
     (if ok then [((True, last ds), Some (last ds))] else [])"
  by (induction k ds ok rule: trace.induct) simp_all

lemma trace_pulls:
  "map (\<lambda>(p, t, k). k) (trace k ds ok) = [k..<k + length (trace k ds ok)]"
  by (induction k ds ok rule: trace.induct) (simp_all add: upt_rec)

lemma resume_loop_head_Nil:
  assumes "stream_field r = Some g" and "pending g = []"
  shows "resume loads store (loop_head loads t r) =
     (trace (pulls g + 1) [t] (fst (finalize loads (settle t [] r)) = None),
      finalize loads (settle t [] r))"
proof -
  have ex: "exhaust g = g\<lparr>pulls := pulls g + 1\<rparr>"
    using assms by (cases g) (simp add: exhaust_def)
  have mid: "settle t [] r =
      r\<lparr>stream_field := Some (g\<lparr>pulls := pulls g + 1\<rparr>), text_field := Some t\<rparr>"
    using assms by (simp add: settle_def ex)
  obtain e r' where fin: "finalize loads (settle t [] r) = (e, r')"
    by (cases "finalize loads (settle t [] r)")
  have "text_field (snd (finalize loads (settle t [] r))) = Some t"
    by (simp add: finalize_text_field settle_def)
  with fin have tf: "text_field r' = Some t" by simp
  have "pulls_of (snd (finalize loads (settle t [] r))) = pulls g + 1"
    using assms by (simp add: pulls_of_def finalize_stream_field settle_def ex)
  with fin have pf: "pulls_of r' = Suc (pulls g)" by simp
  have lh: "loop_head loads t r =
     (case e of Some err \<Rightarrow> (Raise err, Finished, r')
              | None \<Rightarrow> (Yield (True, t), AfterFinal, r'))"
    using assms fin by (simp add: loop_head_def gen_next_def mid)
  show ?thesis
    unfolding lh fin
    by (cases e)
       (simp_all add: resume_Yield resume_Raise drive_AfterFinal tf text_field_same pf)
qed

lemma resume_loop_head_Cons:
  assumes "stream_field r = Some g" and "pending g = c # cs"
  shows "resume loads store (loop_head loads t r) =
     (case resume loads store
             (loop_head loads (chunk_text c)
                (r\<lparr>stream_field := Some (g\<lparr>pending := cs, pulls := pulls g + 1\<rparr>),
                   text_field := Some t,
                   tool_call_chunk_list := chunk_list_after (tool_call_chunk_list r) [c]\<rparr>)) of
        (es, e, r'') \<Rightarrow> (((False, t), Some t, pulls g + 1) # es, e, r''))"
proof -
  have lh: "loop_head loads t r =
       (Yield (False, t), Suspended c,
        r\<lparr>stream_field := Some (g\<lparr>pending := cs, pulls := pulls g + 1\<rparr>),
          text_field := Some t\<rparr>)"
    using assms by (simp add: loop_head_def gen_next_def)
  show ?thesis
    unfolding lh
    by (simp add: resume_Yield drive_resume [of _ _ "Suspended c"] stream_generator_wrapper_def absorb_eq
                  pulls_of_def)
qed

lemma resume_loop_head:
  assumes "stream_field r = Some g" and "pending g = cs"
  shows "resume loads store (loop_head loads t r) =
     (trace (pulls g + 1) (t # map chunk_text cs) (fst (finalize loads (settle t cs r)) = None),
      finalize loads (settle t cs r))"
  using assms
proof (induction cs arbitrary: r g t)
  case Nil
  then show ?case by (simp add: resume_loop_head_Nil)
next
  case (Cons c cs)
  define r2 where
    "r2 = r\<lparr>stream_field := Some (g\<lparr>pending := cs, pulls := pulls g + 1\<rparr>),
            text_field := Some t,
            tool_call_chunk_list := chunk_list_after (tool_call_chunk_list r) [c]\<rparr>"
  have s2: "stream_field r2 = Some (g\<lparr>pending := cs, pulls := pulls g + 1\<rparr>)"
    by (simp add: r2_def)
  have p1: "pending (g\<lparr>pending := cs, pulls := pulls g + 1\<rparr>) = cs" by simp
  have st: "settle (chunk_text c) cs r2 = settle t (c # cs) r"
    using Cons.prems
    by (simp add: settle_def r2_def exhaust_def chunk_list_after_Cons
             del: chunk_list_after.simps)
  obtain e r' where fin: "finalize loads (settle t (c # cs) r) = (e, r')"
    by (cases "finalize loads (settle t (c # cs) r)")
  have "resume loads store (loop_head loads t r) =
        (case resume loads store (loop_head loads (chunk_text c) r2) of
           (es, e, r'') \<Rightarrow> (((False, t), Some t, pulls g + 1) # es, e, r''))"
    unfolding r2_def by (rule resume_loop_head_Cons [OF Cons.prems])
  also have "\<dots> =
     (trace (pulls g + 1) (t # map chunk_text (c # cs))
        (fst (finalize loads (settle t (c # cs) r)) = None),
      finalize loads (settle t (c # cs) r))"
    unfolding Cons.IH [OF s2 p1] st fin by simp
  finally show ?case .
qed

subsection \<open>A wrapper run from its creation\<close>

lemma drive_Fresh_Nil:
  assumes "stream_field r = Some g" and "pending g = []"
    and "\<not> is_stream_exhausted_field r"
  shows "drive loads store Fresh r = ([], None, r\<lparr>stream_field := Some (exhaust g)\<rparr>)"
proof -
  have "exhaust g = g\<lparr>pulls := pulls g + 1\<rparr>"
    using assms by (cases g) (simp add: exhaust_def)
  with assms show ?thesis
    by (simp add: drive_resume [of _ _ Fresh] stream_generator_wrapper_def gen_next_def resume_Stop)
qed

lemma drive_Fresh_Cons:
  assumes "stream_field r = Some g" and "pending g = c # cs"
    and "\<not> is_stream_exhausted_field r"
  shows "drive loads store Fresh r =
     (trace (pulls g + 2) (map chunk_text (c # cs))
        (fst (finalize loads (drained (c # cs) r)) = None),
      finalize loads (drained (c # cs) r))"
proof -
  define r1 where
    "r1 = r\<lparr>stream_field := Some (g\<lparr>pending := cs, pulls := pulls g + 1\<rparr>),
            tool_call_chunk_list := chunk_list_after (tool_call_chunk_list r) [c]\<rparr>"
  have s1: "stream_field r1 = Some (g\<lparr>pending := cs, pulls := pulls g + 1\<rparr>)"
    by (simp add: r1_def)
  have p1: "pending (g\<lparr>pending := cs, pulls := pulls g + 1\<rparr>) = cs" by simp
  have st: "settle (chunk_text c) cs r1 = drained (c # cs) r"
    using assms
    by (simp add: settle_def drained_def r1_def exhaust_def chunk_list_after_Cons last_map
             del: chunk_list_after.simps)
  have "drive loads store Fresh r = resume loads store (loop_head loads (chunk_text c) r1)"
    using assms
    by (simp add: drive_resume [of _ _ Fresh] stream_generator_wrapper_def gen_next_def absorb_eq r1_def)
  also have "\<dots> =
     (trace (pulls (g\<lparr>pending := cs, pulls := pulls g + 1\<rparr>) + 1)
        (chunk_text c # map chunk_text cs)
        (fst (finalize loads (settle (chunk_text c) cs r1)) = None),
      finalize loads (settle (chunk_text c) cs r1))"
    by (rule resume_loop_head [OF s1 p1])
  finally show ?thesis by (simp add: st)
qed

subsection \<open>Building the tool invocations\<close>

lemma append_tool_calls_all:
  assumes "tool_calls r = Some tcs" and "\<forall>t\<in>set ts. decodable loads t"
  shows "append_tool_calls loads ts r =
           (None, r\<lparr>tool_calls := Some (tcs @ map (block_of loads) ts)\<rparr>)"
  using assms
proof (induction ts arbitrary: r tcs)
  case Nil
  then show ?case by (cases r) simp
next
  case (Cons t ts)
  from Cons.prems obtain f j where f: "tc_function t = Some f" and j: "loads (fn_arguments f) = Some j"
    by (auto simp: decodable_def split: option.splits)
  have b: "block_of loads t =
      \<lparr> tb_type = ''tool_use'', tb_id = tc_id t, tb_name = fn_name f, tb_input = j \<rparr>"
    by (simp add: block_of_def f j)
  from Cons.prems have rest: "\<forall>t\<in>set ts. decodable loads t" by simp
  show ?case
    using Cons.prems(1) f j
    by (simp add: Cons.IH [OF _ rest] b)
qed

lemma append_tool_calls_first_bad:
  assumes "tool_calls r = Some tcs" and "\<forall>p\<in>set pre. decodable loads p"
    and "\<not> decodable loads t"
  shows "append_tool_calls loads (pre @ t # post) r =
           (Some (if tc_function t = None then AttributeError else JSONDecodeError),
            r\<lparr>tool_calls := Some (tcs @ map (block_of loads) pre)\<rparr>)"
  using assms
proof (induction pre arbitrary: r tcs)
  case Nil
  then show ?case by (cases r) (auto simp: decodable_def split: option.splits)
next
  case (Cons p pre)
  from Cons.prems obtain f j where f: "tc_function p = Some f" and j: "loads (fn_arguments f) = Some j"
    by (auto simp: decodable_def split: option.splits)
  have b: "block_of loads p =
      \<lparr> tb_type = ''tool_use'', tb_id = tc_id p, tb_name = fn_name f, tb_input = j \<rparr>"
    by (simp add: block_of_def f j)
  from Cons.prems have rest: "\<forall>p\<in>set pre. decodable loads p" by simp
  show ?case
    using Cons.prems(1) f j
    by (simp add: Cons.IH [OF _ rest Cons.prems(3)] b)
qed

lemma append_tool_calls_ok_iff:
  assumes "tool_calls r = Some tcs"
  shows "fst (append_tool_calls loads ts r) = None \<longleftrightarrow> (\<forall>t\<in>set ts. decodable loads t)"
proof
  assume ok: "fst (append_tool_calls loads ts r) = None"
  show "\<forall>t\<in>set ts. decodable loads t"
  proof (rule ccontr)
    assume "\<not> (\<forall>t\<in>set ts. decodable loads t)"
    then have "\<exists>t\<in>set ts. \<not> decodable loads t" by simp
    then obtain pre t post where "ts = pre @ t # post" and "\<not> decodable loads t"
      and "\<forall>p\<in>set pre. \<not> \<not> decodable loads p"
      by (auto dest!: split_list_first_prop)
    with append_tool_calls_first_bad [OF assms, of pre loads t post] ok
    show False by simp
  qed
next
  assume "\<forall>t\<in>set ts. decodable loads t"
  from append_tool_calls_all [OF assms this] show "fst (append_tool_calls loads ts r) = None"
    by simp
qed

lemma finalize_ok_iff:
  assumes "tool_calls r = Some tcs"
  shows "fst (finalize loads r) = None \<longleftrightarrow>
           (\<forall>t\<in>set (case tool_call_chunk_list r of None \<Rightarrow> [] | Some ts \<Rightarrow> ts).
              decodable loads t)"
  by (cases "tool_call_chunk_list r")
     (simp_all add: finalize_def append_tool_calls_ok_iff [OF assms])

lemma finalize_all:
  assumes "tool_calls r = Some tcs" and "tool_call_chunk_list r = Some ts"
    and "\<forall>t\<in>set ts. decodable loads t"
  shows "finalize loads r = (None, r\<lparr>tool_calls := Some (tcs @ map (block_of loads) ts)\<rparr>)"
  using assms by (simp add: finalize_def append_tool_calls_all)

lemma finalize_first_bad:
  assumes "tool_calls r = Some tcs" and "tool_call_chunk_list r = Some (pre @ t # post)"
    and "\<forall>p\<in>set pre. decodable loads p" and "\<not> decodable loads t"
  shows "finalize loads r =
           (Some (if tc_function t = None then AttributeError else JSONDecodeError),
            r\<lparr>tool_calls := Some (tcs @ map (block_of loads) pre)\<rparr>)"
  using assms by (simp add: finalize_def append_tool_calls_first_bad)

subsection \<open>A response built around a stream\<close>

lemma init_response_fields:
  "stream_field (init_response txt emb imgs rw prs strm tcs) = strm"
  "text_field (init_response txt emb imgs rw prs strm tcs) = txt"
  "tool_call_chunk_list (init_response txt emb imgs rw prs strm tcs) = None"
  "\<not> is_stream_exhausted_field (init_response txt emb imgs rw prs strm tcs)"
  "tool_calls (init_response txt emb imgs rw prs (Some g) tcs) =
     Some (case tcs of None \<Rightarrow> [] | Some l \<Rightarrow> l)"
  by (auto simp: init_response_def split: option.splits)

lemma iterate_stream_Some:
  "stream_field r = Some g \<Longrightarrow> iterate_stream loads r = Some (drive loads False Fresh r)"
  by (simp add: iterate_stream_def stream_view_def)

lemma get_text_set: "text_field r = Some t \<Longrightarrow> get_text loads r = (Inr (Some t), r)"
  by (simp add: get_text_def)

lemma get_text_unset:
  assumes "text_field r = None" and "stream_field r = Some g"
  shows "get_text loads r =
     (case raised (drive loads True Fresh r) of
        Some e \<Rightarrow> (Inl e, response_after (drive loads True Fresh r))
      | None \<Rightarrow> (Inr (text_field (response_after (drive loads True Fresh r))),
                 response_after (drive loads True Fresh r)))"
  using assms
  by (simp add: get_text_def stream_view_def raised_def response_after_def
           split: prod.splits option.splits)

lemma exhaust_fresh_gen: "exhaust (fresh_gen cs) = \<lparr> pending = [], pulls = length cs + 1 \<rparr>"
  by (simp add: exhaust_def fresh_gen_def)

lemma exhaust_twice: "exhaust (exhaust g) = (exhaust g)\<lparr>pulls := pulls (exhaust g) + 1\<rparr>"
  by (cases g) (simp add: exhaust_def)

lemma pending_exhaust: "pending (exhaust g) = []"
  by (simp add: exhaust_def)

lemma empty_stream_run:
  assumes "stream_field r = Some g" and "pending g = []"
    and "\<not> is_stream_exhausted_field r"
  shows "emitted (drive loads store Fresh r) = []"
    and "raised (drive loads store Fresh r) = None"
    and "text_field (response_after (drive loads store Fresh r)) = text_field r"
  by (simp_all add: drive_Fresh_Nil [OF assms] emitted_def raised_def response_after_def)

lemma empty_stream_get_text:
  assumes "stream_field r = Some g" and "pending g = []"
    and "\<not> is_stream_exhausted_field r"
  shows "fst (get_text loads r) = Inr (text_field r)"
    and "text_field (snd (get_text loads r)) = text_field r"
proof -
  have "fst (get_text loads r) = Inr (text_field r) \<and>
        text_field (snd (get_text loads r)) = text_field r"
  proof (cases "text_field r")
    case None
    show ?thesis
      unfolding get_text_unset [OF None assms(1)]
      by (simp add: empty_stream_run [OF assms] None)
  next
    case (Some v)
    show ?thesis unfolding get_text_set [OF Some] by (simp add: Some)
  qed
  then show "fst (get_text loads r) = Inr (text_field r)"
    and "text_field (snd (get_text loads r)) = text_field r" by simp_all
qed

text \<open>
  The whole first run, from a response that holds a generator and whose flag is down.
  The result does not depend on the body of the loop that drives the wrapper.
\<close>

lemma first_run:
  assumes "stream_field r = Some g" and "\<not> is_stream_exhausted_field r"
  shows "drive loads store Fresh r =
     (if pending g = [] then ([], None, r\<lparr>stream_field := Some (exhaust g)\<rparr>)
      else (trace (pulls g + 2) (map chunk_text (pending g))
              (fst (finalize loads (drained (pending g) r)) = None),
            finalize loads (drained (pending g) r)))"
proof (cases "pending g")
  case Nil
  with drive_Fresh_Nil [OF assms(1) Nil assms(2)] show ?thesis by simp
next
  case (Cons c cs)
  with drive_Fresh_Cons [OF assms(1) Cons assms(2)] show ?thesis by simp
qed

lemma first_run_state:
  assumes "stream_field r = Some g" and "\<not> is_stream_exhausted_field r"
  shows "stream_field (response_after (drive loads store Fresh r)) = Some (exhaust g)"
    and "\<not> is_stream_exhausted_field (response_after (drive loads store Fresh r))"
    and "text_field (response_after (drive loads store Fresh r)) =
           (if pending g = [] then text_field r else Some (chunk_text (last (pending g))))"
    and "tool_call_chunk_list (response_after (drive loads store Fresh r)) =
           chunk_list_after (tool_call_chunk_list r) (pending g)"
  using assms
  by (simp_all add: first_run [OF assms] response_after_def finalize_frame drained_def)

lemma second_run:
  assumes "stream_field r = Some g" and "\<not> is_stream_exhausted_field r"
  shows "emitted (drive loads' store' Fresh (response_after (drive loads store Fresh r))) = []"
    and "raised (drive loads' store' Fresh (response_after (drive loads store Fresh r))) = None"
    and "pulls_of (response_after
            (drive loads' store' Fresh (response_after (drive loads store Fresh r)))) =
          pulls_of (response_after (drive loads store Fresh r)) + 1"
proof -
  let ?r1 = "response_after (drive loads store Fresh r)"
  note s = first_run_state(1) [OF assms, of loads store]
  note f = first_run_state(2) [OF assms, of loads store]
  have "drive loads' store' Fresh ?r1 =
          ([], None, ?r1\<lparr>stream_field := Some (exhaust (exhaust g))\<rparr>)"
    by (rule drive_Fresh_Nil [OF s pending_exhaust f])
  then show "emitted (drive loads' store' Fresh ?r1) = []"
    and "raised (drive loads' store' Fresh ?r1) = None"
    and "pulls_of (response_after (drive loads' store' Fresh ?r1)) = pulls_of ?r1 + 1"
    using s by (simp_all add: emitted_def raised_def response_after_def pulls_of_def exhaust_twice)
qed

lemma drive_store:
  assumes "stream_field r = Some g" and "\<not> is_stream_exhausted_field r"
  shows "drive loads True Fresh r = drive loads False Fresh r"
  by (simp add: first_run [OF assms])

lemma chunk_list_after_plain:
  "\<forall>c\<in>set cs. \<exists>s. c = Plain s \<Longrightarrow> chunk_list_after acc cs = acc"
  by (induction cs) auto

lemma chunk_list_after_last_structured:
  "\<forall>c\<in>set post. \<exists>s. c = Plain s \<Longrightarrow>
   chunk_list_after acc (pre @ Structured sc # post) = sc_tool_calls sc"
proof (induction pre arbitrary: acc)
  case Nil
  then show ?case by (simp add: chunk_list_after_plain)
next
  case (Cons c pre)
  then show ?case by (cases c) simp_all
qed

text \<open>
  The first run when the response holds its list of tool invocations, as every response
  built around a stream does.
\<close>

lemma first_run_trace:
  assumes "stream_field r = Some g" and "\<not> is_stream_exhausted_field r"
    and "pending g \<noteq> []"
  shows "fst (drive loads store Fresh r) =
           trace (pulls g + 2) (map chunk_text (pending g))
             (raised (drive loads store Fresh r) = None)"
    and "raised (drive loads store Fresh r) = fst (finalize loads (drained (pending g) r))"
    and "response_after (drive loads store Fresh r) = snd (finalize loads (drained (pending g) r))"
  using assms(3)
  by (simp_all add: first_run [OF assms(1,2)] raised_def response_after_def)

lemma drained_fields:
  "tool_calls (drained cs r) = tool_calls r"
  "tool_call_chunk_list (drained cs r) = chunk_list_after (tool_call_chunk_list r) cs"
  by (simp_all add: drained_def)

lemma first_run_ok_iff:
  assumes "stream_field r = Some g" and "\<not> is_stream_exhausted_field r"
    and "pending g \<noteq> []" and "tool_calls r = Some tcs"
  shows "raised (drive loads store Fresh r) = None \<longleftrightarrow>
           (\<forall>t\<in>set (case chunk_list_after (tool_call_chunk_list r) (pending g) of
                         None \<Rightarrow> [] | Some ts \<Rightarrow> ts). decodable loads t)"
proof -
  have tc: "tool_calls (drained (pending g) r) = Some tcs"
    using assms(4) by (simp add: drained_fields)
  show ?thesis
    unfolding first_run_trace(2) [OF assms(1-3)] finalize_ok_iff [OF tc]
    by (simp add: drained_fields)
qed

lemma first_run_tool_calls:
  assumes "stream_field r = Some g" and "\<not> is_stream_exhausted_field r"
    and "pending g \<noteq> []" and "tool_calls r = Some tcs"
    and "\<forall>t\<in>set (case chunk_list_after (tool_call_chunk_list r) (pending g) of
                       None \<Rightarrow> [] | Some ts \<Rightarrow> ts). decodable loads t"
  shows "tool_calls (response_after (drive loads store Fresh r)) =
           Some (tcs @ map (block_of loads)
                   (case chunk_list_after (tool_call_chunk_list r) (pending g) of
                      None \<Rightarrow> [] | Some ts \<Rightarrow> ts))"
proof (cases "chunk_list_after (tool_call_chunk_list r) (pending g)")
  case None
  then have "tool_call_chunk_list (drained (pending g) r) = None"
    by (simp add: drained_fields)
  then have "finalize loads (drained (pending g) r) = (None, drained (pending g) r)"
    by (simp add: finalize_def)
  then show ?thesis
    unfolding first_run_trace(3) [OF assms(1-3)]
    using assms(4) None by (simp add: drained_fields)
next
  case (Some ts)
  have tc: "tool_calls (drained (pending g) r) = Some tcs"
    using assms(4) by (simp add: drained_fields)
  have cl: "tool_call_chunk_list (drained (pending g) r) = Some ts"
    using Some by (simp add: drained_fields)
  from assms(5) Some have all: "\<forall>t\<in>set ts. decodable loads t" by simp
  show ?thesis
    unfolding first_run_trace(3) [OF assms(1-3)] finalize_all [OF tc cl all]
    using Some by simp
qed

lemma first_run_error_kind:
  assumes "stream_field r = Some g" and "\<not> is_stream_exhausted_field r"
    and "pending g \<noteq> []" and "tool_calls r = Some tcs"
    and "chunk_list_after (tool_call_chunk_list r) (pending g) = Some (pre @ t # post)"
    and "\<forall>p\<in>set pre. decodable loads p" and "\<not> decodable loads t"
  shows "raised (drive loads store Fresh r) =
           Some (if tc_function t = None then AttributeError else JSONDecodeError)"
    and "tool_calls (response_after (drive loads store Fresh r)) =
           Some (tcs @ map (block_of loads) pre)"
proof -
  have tc: "tool_calls (drained (pending g) r) = Some tcs"
    using assms(4) by (simp add: drained_fields)
  have cl: "tool_call_chunk_list (drained (pending g) r) = Some (pre @ t # post)"
    using assms(5) by (simp add: drained_fields)
  note fb = finalize_first_bad [OF tc cl assms(6,7)]
  show "raised (drive loads store Fresh r) =
           Some (if tc_function t = None then AttributeError else JSONDecodeError)"
    unfolding first_run_trace(2) [OF assms(1-3)] fb by simp
  show "tool_calls (response_after (drive loads store Fresh r)) =
           Some (tcs @ map (block_of loads) pre)"
    unfolding first_run_trace(3) [OF assms(1-3)] fb by simp
qed

lemma append_tool_calls_decode_error:
  assumes "tool_calls r = Some tcs" and "\<forall>p\<in>set pre. tc_function p \<noteq> None"
    and "tc_function t = Some f" and "loads (fn_arguments f) = None"
  shows "fst (append_tool_calls loads (pre @ t # post) r) = Some JSONDecodeError"
  using assms(1,2)
proof (induction pre arbitrary: r tcs)
  case Nil
  then show ?case using assms(3,4) by simp
next
  case (Cons p pre)
  from Cons.prems(2) obtain fp where fp: "tc_function p = Some fp" by auto
  from Cons.prems(2) have rest: "\<forall>p\<in>set pre. tc_function p \<noteq> None" by simp
  show ?case
  proof (cases "loads (fn_arguments fp)")
    case None
    with Cons.prems(1) fp show ?thesis by simp
  next
    case (Some j)
    with Cons.prems(1) fp show ?thesis by (simp add: Cons.IH [OF _ rest])
  qed
qed

lemma first_run_decode_error:
  assumes "stream_field r = Some g" and "\<not> is_stream_exhausted_field r"
    and "pending g \<noteq> []" and "tool_calls r = Some tcs"
    and "chunk_list_after (tool_call_chunk_list r) (pending g) = Some (pre @ t # post)"
    and "\<forall>p\<in>set pre. tc_function p \<noteq> None"
    and "tc_function t = Some f" and "loads (fn_arguments f) = None"
  shows "raised (drive loads store Fresh r) = Some JSONDecodeError"
proof -
  have tc: "tool_calls (drained (pending g) r) = Some tcs"
    using assms(4) by (simp add: drained_fields)
  have cl: "tool_call_chunk_list (drained (pending g) r) = Some (pre @ t # post)"
    using assms(5) by (simp add: drained_fields)
  show ?thesis
    unfolding first_run_trace(2) [OF assms(1-3)]
    using cl append_tool_calls_decode_error [where loads = loads and f = f, OF tc assms(6-8)]
    by (simp add: finalize_def)
qed

lemma emitted_trace:
  "ds \<noteq> [] \<Longrightarrow>
   map fst (trace k ds ok) =
     map (Pair False) (butlast ds) @ (if ok then [(True, last ds)] else [])"
  by (induction k ds ok rule: trace.induct) simp_all

lemma to_str_state:
  "snd (to_str is_json_serializable str_of dumps loads r) = snd (get_text loads r)"
  by (simp add: to_str_def Let_def split: prod.splits sum.splits option.splits)

lemma get_text_unset_state:
  assumes "text_field r = None" and "stream_field r = Some g"
  shows "snd (get_text loads r) = response_after (drive loads True Fresh r)"
  unfolding get_text_unset [OF assms] by (simp split: option.splits)

section \<open>The properties\<close>

text \<open>
  C10. At construction, with a stream and no tool invocations given, the tool-invocation
  list starts as the empty list; with no stream and no tool invocations given, the field
  stays absent (\<open>None\<close>), it does not become the empty list.
\<close>

theorem init_tool_calls_default:
  "tool_calls (init_response txt emb imgs rw prs (Some g) None :: ('a, 'j) model_response)
     = Some [] \<and>
   tool_calls (init_response txt emb imgs rw prs None None :: ('a, 'j) model_response)
     = None"
  by (simp add: init_response_def)

theorem init_tool_calls_default_witness:
  "tool_calls (init_response None None None () None (Some (fresh_gen [Plain ''a''])) None
               :: (unit, int) model_response) = Some [] \<and>
   tool_calls (init_response (Some ''done'') None None () None None None
               :: (unit, int) model_response) = None"
  using init_tool_calls_default [where ?'j = int, of None None None "()" None "fresh_gen [Plain ''a'']"]
    init_tool_calls_default [where ?'j = int, of "Some ''done''" None None "()" None "fresh_gen []"]
  by simp

text \<open>
  C8. When the underlying sequence yields no chunk at all, running the stream view to its
  end delivers no pair and raises nothing, and the settled text is what it was before:
  the value given at construction, absent if none was given. Reading the \<open>text\<close> property
  of such a response returns that same value without an error.
\<close>

theorem empty_stream_drains_silently:
  "let r0 = init_response txt emb imgs rw prs (Some (fresh_gen [])) tcs in
     \<exists>res. iterate_stream loads r0 = Some res \<and>
           emitted res = [] \<and> raised res = None \<and>
           text_field (response_after res) = txt \<and>
           fst (get_text loads r0) = Inr txt \<and>
           text_field (snd (get_text loads r0)) = txt"
proof -
  define r0 :: "('a, 'b) model_response"
    where "r0 = init_response txt emb imgs rw prs (Some (fresh_gen [])) tcs"
  have s: "stream_field r0 = Some (fresh_gen [])" and f: "\<not> is_stream_exhausted_field r0"
    and t: "text_field r0 = txt"
    by (simp_all add: r0_def init_response_fields)
  have p: "pending (fresh_gen []) = []" by (simp add: fresh_gen_def)
  have "iterate_stream loads r0 = Some (drive loads False Fresh r0)"
    by (rule iterate_stream_Some [OF s])
  moreover note empty_stream_run [OF s p f, of loads False] empty_stream_get_text [OF s p f, of loads]
  ultimately have
    "\<exists>res. iterate_stream loads r0 = Some res \<and>
           emitted res = [] \<and> raised res = None \<and>
           text_field (response_after res) = txt \<and>
           fst (get_text loads r0) = Inr txt \<and>
           text_field (snd (get_text loads r0)) = txt"
    by (simp add: t)
  then show ?thesis by (simp add: Let_def r0_def)
qed

theorem empty_stream_drains_silently_witness:
  "emitted (the (iterate_stream sample_loads (streaming []))) = [] \<and>
   raised (the (iterate_stream sample_loads (streaming []))) = None \<and>
   fst (get_text sample_loads (streaming [])) = Inr None"
  using empty_stream_drains_silently [of None None None "()" None None sample_loads]
  by (auto simp: Let_def streaming_def)

text \<open>
  C1 asks that a second run of the stream view, after a first run to the end, raises
  \<open>RuntimeError\<close>. The wrapper tests \<open>_is_stream_exhausted\<close> for that, but nothing ever
  sets the flag: for every stream-carrying response the second run pulls once, finds the
  generator at its end, and stops with no pair and no exception.
\<close>

theorem second_iteration_silently_empty:
  "let r0 = init_response txt emb imgs rw prs (Some (fresh_gen cs)) tcs in
     \<exists>res1 res2. iterate_stream loads r0 = Some res1 \<and>
                 iterate_stream loads (response_after res1) = Some res2 \<and>
                 emitted res2 = [] \<and> raised res2 = None"
proof -
  let ?r0 = "init_response txt emb imgs rw prs (Some (fresh_gen cs)) tcs"
  let ?res1 = "drive loads False Fresh ?r0"
  let ?res2 = "drive loads False Fresh (response_after ?res1)"
  have s: "stream_field ?r0 = Some (fresh_gen cs)" and f: "\<not> is_stream_exhausted_field ?r0"
    by (simp_all add: init_response_fields)
  have "iterate_stream loads ?r0 = Some ?res1" by (rule iterate_stream_Some [OF s])
  moreover have "iterate_stream loads (response_after ?res1) = Some ?res2"
    by (rule iterate_stream_Some [OF first_run_state(1) [OF s f]])
  moreover have "emitted ?res2 = []" by (rule second_run(1) [OF s f])
  moreover have "raised ?res2 = None" by (rule second_run(2) [OF s f])
  ultimately show ?thesis unfolding Let_def by blast
qed

text \<open>
  C4 asks that \<open>is_stream_exhausted\<close> is true once the stream has been run to its end (and
  false for a response without a stream). The code only ever writes \<open>False\<close> to the flag:
  after a full run the generator holds nothing, \<open>length cs + 1\<close> pulls have been made,
  and the property still answers \<open>False\<close>.
\<close>

theorem exhausted_flag_never_set:
  "let r0 = init_response txt emb imgs rw prs (Some (fresh_gen cs)) tcs in
     \<exists>res. iterate_stream loads r0 = Some res \<and>
           stream_field (response_after res) = Some \<lparr> pending = [], pulls = length cs + 1 \<rparr> \<and>
           is_stream_exhausted (response_after res) = False"
proof -
  let ?r0 = "init_response txt emb imgs rw prs (Some (fresh_gen cs)) tcs"
  let ?res = "drive loads False Fresh ?r0"
  have s: "stream_field ?r0 = Some (fresh_gen cs)" and f: "\<not> is_stream_exhausted_field ?r0"
    by (simp_all add: init_response_fields)
  have "iterate_stream loads ?r0 = Some ?res" by (rule iterate_stream_Some [OF s])
  moreover have "stream_field (response_after ?res) = Some \<lparr> pending = [], pulls = length cs + 1 \<rparr>"
    using first_run_state(1) [OF s f, of loads False] by (simp add: exhaust_fresh_gen)
  moreover have "is_stream_exhausted (response_after ?res) = False"
    using first_run_state(2) [OF s f, of loads False] by (simp add: is_stream_exhausted_def)
  ultimately show ?thesis unfolding Let_def by blast
qed

text \<open>
  C2 says that the settled text after a full run is the concatenation of all text deltas,
  \<open>Hello\<close> for the deltas \<open>Hel\<close> and \<open>lo\<close>. The code stores the text of one chunk at a
  time, each replacing the one before, so the settled text is \<open>lo\<close>.
\<close>

theorem settled_text_not_concatenation:
  "fst (get_text sample_loads (after_run [Plain ''Hel'', Plain ''lo''])) = Inr (Some ''lo'') \<and>
   fst (get_text sample_loads (after_run [Plain ''Hel'', Plain ''lo'']))
     \<noteq> Inr (Some (''Hel'' @ ''lo''))"
  by code_simp

text \<open>
  C2 as the code has it: after a stream of at least one chunk has been run to its end, the
  \<open>text\<close> property returns the text of the last chunk alone, and reading it changes
  nothing. When no text was given at construction, reading \<open>text\<close> on the untouched
  response runs the stream itself and returns that same value, unless building the tool
  invocations raised, in which case the read raises that exception.
\<close>

theorem settled_text_is_last_chunk:
  "cs \<noteq> [] \<Longrightarrow>
   (let r0 = init_response txt emb imgs rw prs (Some (fresh_gen cs)) tcs in
      \<exists>res. iterate_stream loads r0 = Some res \<and>
            get_text loads (response_after res) =
              (Inr (Some (chunk_text (last cs))), response_after res) \<and>
            (txt = None \<longrightarrow>
               fst (get_text loads r0) =
                 (case raised res of
                    None \<Rightarrow> Inr (Some (chunk_text (last cs)))
                  | Some e \<Rightarrow> Inl e)))"
proof -
  assume ne: "cs \<noteq> []"
  define r0 :: "('a, 'b) model_response"
    where "r0 = init_response txt emb imgs rw prs (Some (fresh_gen cs)) tcs"
  let ?res = "drive loads False Fresh r0"
  have s: "stream_field r0 = Some (fresh_gen cs)" and f: "\<not> is_stream_exhausted_field r0"
    and t: "text_field r0 = txt"
    by (simp_all add: r0_def init_response_fields)
  have p: "pending (fresh_gen cs) = cs" by (simp add: fresh_gen_def)
  have it: "iterate_stream loads r0 = Some ?res" by (rule iterate_stream_Some [OF s])
  have tf: "text_field (response_after ?res) = Some (chunk_text (last cs))"
    using first_run_state(3) [OF s f, of loads False] ne by (simp add: p)
  have rd: "get_text loads (response_after ?res) =
              (Inr (Some (chunk_text (last cs))), response_after ?res)"
    by (rule get_text_set [OF tf])
  have dr: "txt = None \<longrightarrow>
      fst (get_text loads r0) =
        (case raised ?res of None \<Rightarrow> Inr (Some (chunk_text (last cs))) | Some e \<Rightarrow> Inl e)"
  proof
    assume "txt = None"
    with t have tn: "text_field r0 = None" by simp
    show "fst (get_text loads r0) =
        (case raised ?res of None \<Rightarrow> Inr (Some (chunk_text (last cs))) | Some e \<Rightarrow> Inl e)"
      unfolding get_text_unset [OF tn s] drive_store [OF s f]
      by (simp add: tf split: option.splits)
  qed
  from it rd dr have
    "\<exists>res. iterate_stream loads r0 = Some res \<and>
            get_text loads (response_after res) =
              (Inr (Some (chunk_text (last cs))), response_after res) \<and>
            (txt = None \<longrightarrow>
               fst (get_text loads r0) =
                 (case raised res of
                    None \<Rightarrow> Inr (Some (chunk_text (last cs)))
                  | Some e \<Rightarrow> Inl e))"
    by blast
  then show ?thesis by (simp add: Let_def r0_def)
qed

theorem settled_text_is_last_chunk_witness:
  "[Plain ''Hel'', Plain ''lo''] \<noteq> [] \<and>
   fst (get_text sample_loads (after_run [Plain ''Hel'', Plain ''lo''])) = Inr (Some ''lo'') \<and>
   fst (get_text sample_loads (streaming [Plain ''Hel'', Plain ''lo''])) = Inr (Some ''lo'')"
proof -
  have ne: "[Plain ''Hel'', Plain ''lo''] \<noteq> []" by simp
  have ok: "raised (the (iterate_stream sample_loads (streaming [Plain ''Hel'', Plain ''lo'']))) = None"
    by code_simp
  from settled_text_is_last_chunk [OF ne, of None None None "()" None None sample_loads] ok
  show ?thesis
    by (auto simp: Let_def after_run_def streaming_def chunk_text_def)
qed

text \<open>
  C7 says that after a full run two reads of the \<open>text\<close> property return the same value
  and that the second read pulls nothing. For an empty stream with no text given the
  settled text stays absent, so every read enters the wrapper again and calls \<open>next\<close> on
  the spent generator: both reads return \<open>None\<close>, and the second read makes one more pull.
\<close>

theorem second_read_pulls_on_empty_stream:
  "fst (get_text sample_loads (after_run [])) = Inr None \<and>
   fst (get_text sample_loads (snd (get_text sample_loads (after_run [])))) = Inr None \<and>
   pulls_of (snd (get_text sample_loads (snd (get_text sample_loads (after_run []))))) =
     pulls_of (snd (get_text sample_loads (after_run []))) + 1"
  by code_simp

text \<open>
  C7 as the code has it: when the stream held at least one chunk, or a text was given at
  construction, then after a full run the settled text is present, two reads of the
  \<open>text\<close> property in a row return the same value, and neither read pulls from the
  underlying generator.
\<close>

theorem settled_text_read_twice:
  "cs \<noteq> [] \<or> txt \<noteq> None \<Longrightarrow>
   (let r0 = init_response txt emb imgs rw prs (Some (fresh_gen cs)) tcs in
      \<exists>res v r2 r3. iterate_stream loads r0 = Some res \<and>
            get_text loads (response_after res) = (Inr (Some v), r2) \<and>
            get_text loads r2 = (Inr (Some v), r3) \<and>
            pulls_of r2 = pulls_of (response_after res) \<and>
            pulls_of r3 = pulls_of r2)"
proof -
  assume h: "cs \<noteq> [] \<or> txt \<noteq> None"
  define r0 :: "('a, 'b) model_response"
    where "r0 = init_response txt emb imgs rw prs (Some (fresh_gen cs)) tcs"
  let ?res = "drive loads False Fresh r0"
  have s: "stream_field r0 = Some (fresh_gen cs)" and f: "\<not> is_stream_exhausted_field r0"
    and t: "text_field r0 = txt"
    by (simp_all add: r0_def init_response_fields)
  have p: "pending (fresh_gen cs) = cs" by (simp add: fresh_gen_def)
  have it: "iterate_stream loads r0 = Some ?res" by (rule iterate_stream_Some [OF s])
  have "text_field (response_after ?res) = (if cs = [] then txt else Some (chunk_text (last cs)))"
    using first_run_state(3) [OF s f, of loads False] by (simp add: p t)
  with h obtain v where tf: "text_field (response_after ?res) = Some v"
    by (cases "cs = []") auto
  note rd = get_text_set [OF tf, of loads]
  from it rd have
    "\<exists>res v r2 r3. iterate_stream loads r0 = Some res \<and>
            get_text loads (response_after res) = (Inr (Some v), r2) \<and>
            get_text loads r2 = (Inr (Some v), r3) \<and>
            pulls_of r2 = pulls_of (response_after res) \<and>
            pulls_of r3 = pulls_of r2"
    by blast
  then show ?thesis by (simp add: Let_def r0_def)
qed

theorem settled_text_read_twice_witness:
  "[Plain ''Hel'', Plain ''lo''] \<noteq> [] \<and>
   (\<exists>v r2 r3.
      get_text sample_loads (after_run [Plain ''Hel'', Plain ''lo'']) = (Inr (Some v), r2) \<and>
      get_text sample_loads r2 = (Inr (Some v), r3) \<and>
      pulls_of r2 = pulls_of (after_run [Plain ''Hel'', Plain ''lo'']) \<and>
      pulls_of r3 = pulls_of r2)"
proof -
  have h: "[Plain ''Hel'', Plain ''lo''] \<noteq> [] \<or> (None :: string option) \<noteq> None" by simp
  from settled_text_read_twice
         [OF h, where emb = None and imgs = None and rw = "()" and prs = None and tcs = None
            and loads = sample_loads]
  show ?thesis
    by (auto simp: Let_def after_run_def streaming_def)
qed

text \<open>
  C9. For a response that holds an untouched stream and no settled text, building the
  diagnostic string reads the \<open>text\<close> property and so runs the stream to its end: whatever
  the string or the exception that comes out, the generator holds nothing afterwards and
  has been pulled once per chunk and once more, and a later run of the stream view finds
  the source empty: it delivers no pair and raises nothing.
\<close>

theorem to_str_drains_stream:
  "let r0 = init_response None emb imgs rw prs (Some (fresh_gen cs)) tcs;
       r1 = snd (to_str is_json_serializable str_of dumps loads r0) in
     stream_field r1 = Some \<lparr> pending = [], pulls = length cs + 1 \<rparr> \<and>
     (\<exists>res. iterate_stream loads r1 = Some res \<and> emitted res = [] \<and> raised res = None)"
proof -
  define r0 :: "('a, 'b) model_response"
    where "r0 = init_response None emb imgs rw prs (Some (fresh_gen cs)) tcs"
  define r1 where "r1 = snd (to_str is_json_serializable str_of dumps loads r0)"
  have s: "stream_field r0 = Some (fresh_gen cs)" and f: "\<not> is_stream_exhausted_field r0"
    and t: "text_field r0 = None"
    by (simp_all add: r0_def init_response_fields)
  have r1: "r1 = response_after (drive loads True Fresh r0)"
    by (simp add: r1_def to_str_state get_text_unset_state [OF t s])
  have s1: "stream_field r1 = Some \<lparr> pending = [], pulls = length cs + 1 \<rparr>"
    unfolding r1 using first_run_state(1) [OF s f, of loads True]
    by (simp add: exhaust_fresh_gen)
  have "iterate_stream loads r1 = Some (drive loads False Fresh r1)"
    by (rule iterate_stream_Some [OF s1])
  moreover have "emitted (drive loads False Fresh r1) = []"
    unfolding r1 by (rule second_run(1) [OF s f])
  moreover have "raised (drive loads False Fresh r1) = None"
    unfolding r1 by (rule second_run(2) [OF s f])
  ultimately have
    "stream_field r1 = Some \<lparr> pending = [], pulls = length cs + 1 \<rparr> \<and>
     (\<exists>res. iterate_stream loads r1 = Some res \<and> emitted res = [] \<and> raised res = None)"
    using s1 by blast
  then show ?thesis by (simp add: Let_def r0_def r1_def)
qed

theorem to_str_drains_stream_witness:
  "stream_field (snd (to_str (\<lambda>u. True) (\<lambda>u. ''None'') (\<lambda>fs. Some ''{}'') sample_loads
                    (streaming [Plain ''Hel'', Plain ''lo''])))
     = Some \<lparr> pending = [], pulls = 3 \<rparr>"
  using to_str_drains_stream
    [of None None "()" None "[Plain ''Hel'', Plain ''lo'']" None
        "\<lambda>u. True" "\<lambda>u. ''None''" "\<lambda>fs. Some ''{}''" sample_loads]
  by (simp add: Let_def streaming_def)

text \<open>
  C5 says that a stream of \<open>n \<ge> 1\<close> chunks always yields \<open>n\<close> pairs, the last one marked
  final. The tool invocations are built after the last pull and before the final pair is
  yielded; when that raises, the exception takes the place of the final pair. Here the
  second of two chunks carries arguments that are not valid JSON.
\<close>

theorem final_pair_lost_on_error:
  "emitted (the (iterate_stream sample_loads
             (streaming [Plain ''a'', tool_chunk ''b'' [fragment 0 ''c1'' ''f'' ''1}'']])))
     = [(False, ''a'')] \<and>
   raised (the (iterate_stream sample_loads
             (streaming [Plain ''a'', tool_chunk ''b'' [fragment 0 ''c1'' ''f'' ''1}'']])))
     = Some JSONDecodeError"
  by code_simp

text \<open>
  C5 as the code has it: for a stream of \<open>n \<ge> 1\<close> chunks with the texts \<open>d1 .. dn\<close>, the
  stream view yields \<open>(False, d1)\<close>, ..., \<open>(False, d(n-1))\<close> and then, if building the
  tool invocations raises nothing, the final pair \<open>(True, dn)\<close>; at the arrival of every
  pair the settled text is the text of that pair. Emission is one chunk behind
  consumption: the first pair arrives after two pulls and every later pair after one pull
  more, so the chunk after the one a pair carries has been pulled already (for the final
  pair, the pull that found the end). Building the tool invocations raises nothing
  exactly when every entry of the list kept last has a function record with arguments
  that decode; otherwise the run ends with the exception after the \<open>n - 1\<close> pairs that are
  not final.
\<close>

theorem one_behind_emission:
  "cs \<noteq> [] \<Longrightarrow>
   (let r0 = init_response txt emb imgs rw prs (Some (fresh_gen cs)) tcs;
        ds = map chunk_text cs in
      \<exists>res. iterate_stream loads r0 = Some res \<and>
            map (\<lambda>(p, t, k). (p, t)) (fst res) =
              map (\<lambda>d. ((False, d), Some d)) (butlast ds) @
              (if raised res = None then [((True, last ds), Some (last ds))] else []) \<and>
            map (\<lambda>(p, t, k). k) (fst res) = [2..<2 + length (fst res)] \<and>
            (raised res = None \<longleftrightarrow> (\<forall>t\<in>set (final_chunks cs). decodable loads t)))"
proof -
  assume ne: "cs \<noteq> []"
  define r0 :: "('a, 'b) model_response"
    where "r0 = init_response txt emb imgs rw prs (Some (fresh_gen cs)) tcs"
  let ?res = "drive loads False Fresh r0"
  have s: "stream_field r0 = Some (fresh_gen cs)" and f: "\<not> is_stream_exhausted_field r0"
    and cl: "tool_call_chunk_list r0 = None"
    and tc: "tool_calls r0 = Some (case tcs of None \<Rightarrow> [] | Some l \<Rightarrow> l)"
    by (simp_all add: r0_def init_response_fields)
  have p: "pending (fresh_gen cs) = cs" and p0: "pulls (fresh_gen cs) = 0"
    by (simp_all add: fresh_gen_def)
  from ne p have pne: "pending (fresh_gen cs) \<noteq> []" by simp
  from ne have dne: "map chunk_text cs \<noteq> []" by simp
  have it: "iterate_stream loads r0 = Some ?res" by (rule iterate_stream_Some [OF s])
  have tr: "fst ?res = trace 2 (map chunk_text cs) (raised ?res = None)"
    using first_run_trace(1) [OF s f pne, of loads False] by (simp add: p p0 numeral_2_eq_2)
  have pairs: "map (\<lambda>(p, t, k). (p, t)) (fst ?res) =
      map (\<lambda>d. ((False, d), Some d)) (butlast (map chunk_text cs)) @
      (if raised ?res = None
       then [((True, last (map chunk_text cs)), Some (last (map chunk_text cs)))] else [])"
    unfolding tr by (rule trace_pairs [OF dne])
  have pl: "map (\<lambda>(p, t, k). k) (fst ?res) = [2..<2 + length (fst ?res)]"
    unfolding tr by (rule trace_pulls)
  have ok: "raised ?res = None \<longleftrightarrow> (\<forall>t\<in>set (final_chunks cs). decodable loads t)"
    using first_run_ok_iff [OF s f pne tc, of loads False] by (simp add: p cl final_chunks_def)
  have
    "\<exists>res. iterate_stream loads r0 = Some res \<and>
            map (\<lambda>(p, t, k). (p, t)) (fst res) =
              map (\<lambda>d. ((False, d), Some d)) (butlast (map chunk_text cs)) @
              (if raised res = None
               then [((True, last (map chunk_text cs)), Some (last (map chunk_text cs)))]
               else []) \<and>
            map (\<lambda>(p, t, k). k) (fst res) = [2..<2 + length (fst res)] \<and>
            (raised res = None \<longleftrightarrow> (\<forall>t\<in>set (final_chunks cs). decodable loads t))"
  proof (intro exI conjI)
    show "iterate_stream loads r0 = Some ?res" by (rule it)
    show "map (\<lambda>(p, t, k). (p, t)) (fst ?res) =
              map (\<lambda>d. ((False, d), Some d)) (butlast (map chunk_text cs)) @
              (if raised ?res = None
               then [((True, last (map chunk_text cs)), Some (last (map chunk_text cs)))]
               else [])" by (rule pairs)
    show "map (\<lambda>(p, t, k). k) (fst ?res) = [2..<2 + length (fst ?res)]" by (rule pl)
    show "raised ?res = None \<longleftrightarrow> (\<forall>t\<in>set (final_chunks cs). decodable loads t)"
      by (rule ok)
  qed
  then show ?thesis by (simp add: Let_def r0_def)
qed

theorem one_behind_emission_witness:
  "[Plain ''Hel'', Plain ''lo''] \<noteq> [] \<and>
   map (\<lambda>(p, t, k). (p, t))
     (fst (the (iterate_stream sample_loads (streaming [Plain ''Hel'', Plain ''lo''])))) =
     [((False, ''Hel''), Some ''Hel''), ((True, ''lo''), Some ''lo'')] \<and>
   map (\<lambda>(p, t, k). k)
     (fst (the (iterate_stream sample_loads (streaming [Plain ''Hel'', Plain ''lo''])))) =
     [2, 3]"
proof -
  have ne: "[Plain ''Hel'', Plain ''lo''] \<noteq> []" by simp
  have len: "length (fst (the (iterate_stream sample_loads
                                 (streaming [Plain ''Hel'', Plain ''lo''])))) = 2"
    by code_simp
  have up: "[2..<4] = [2, 3::nat]" by (simp add: upt_rec)
  from one_behind_emission
         [OF ne, of None None None "()" None None sample_loads] len up
  show ?thesis
    by (auto simp: Let_def streaming_def chunk_text_def final_chunks_def)
qed

text \<open>
  C3 says that fragments with the same index are merged into one entry: the first sets id,
  type, name and arguments, the later ones append their arguments and fill an empty id or
  name. The code keeps no such entry: \<open>tool_call_chunk_list\<close> is overwritten by the list
  of every structured chunk. With the arguments \<open>{"a":\<close> and \<open>1}\<close> in two chunks, the list
  kept at the end holds the second fragment only and decoding \<open>1}\<close> fails; with \<open>1\<close> and
  \<open>2\<close>, the invocation built has the input \<open>2\<close>, not \<open>12\<close>, and the empty id and name of
  the second fragment.
\<close>

theorem fragments_not_merged:
  "tool_call_chunk_list
     (after_run [tool_chunk [] [fragment 0 ''call_1'' ''f'' ''{\"a\":''],
                 tool_chunk [] [fragment 0 [] [] ''1}'']])
     = Some [fragment 0 [] [] ''1}''] \<and>
   raised (the (iterate_stream sample_loads
     (streaming [tool_chunk [] [fragment 0 ''call_1'' ''f'' ''{\"a\":''],
                 tool_chunk [] [fragment 0 [] [] ''1}'']])))
     = Some JSONDecodeError \<and>
   tool_calls
     (after_run [tool_chunk [] [fragment 0 ''call_1'' ''f'' ''1''],
                 tool_chunk [] [fragment 0 [] [] ''2'']])
     = Some [\<lparr> tb_type = ''tool_use'', tb_id = [], tb_name = [], tb_input = 2 \<rparr>]"
  by code_simp

text \<open>
  C3 as the code has it: the list of tool-call fragments of every structured chunk
  replaces the list kept so far as a whole, so after the run the list kept is the one of
  the last structured chunk; fragments are never merged by index. When every entry of
  that list has a function record whose arguments decode, the run raises nothing and has
  appended one tool invocation per entry, in list order, each built from the id, the
  function name and the arguments of that entry alone.
\<close>

theorem tool_call_list_replaced:
  "let r0 = init_response txt emb imgs rw prs (Some (fresh_gen cs)) tcs in
     \<exists>res. iterate_stream loads r0 = Some res \<and>
           tool_call_chunk_list (response_after res) = chunk_list_after None cs \<and>
           (\<forall>pre sc post. cs = pre @ Structured sc # post \<and> (\<forall>c\<in>set post. \<exists>s. c = Plain s) \<longrightarrow>
              tool_call_chunk_list (response_after res) = sc_tool_calls sc) \<and>
           ((\<forall>t\<in>set (final_chunks cs). decodable loads t) \<longrightarrow>
              raised res = None \<and>
              tool_calls (response_after res) =
                Some ((case tcs of None \<Rightarrow> [] | Some l \<Rightarrow> l) @
                      map (block_of loads) (final_chunks cs)))"
proof -
  define r0 :: "('a, 'b) model_response"
    where "r0 = init_response txt emb imgs rw prs (Some (fresh_gen cs)) tcs"
  define tcs0 where "tcs0 = (case tcs of None \<Rightarrow> [] | Some l \<Rightarrow> l)"
  let ?res = "drive loads False Fresh r0"
  have s: "stream_field r0 = Some (fresh_gen cs)" and f: "\<not> is_stream_exhausted_field r0"
    and cl: "tool_call_chunk_list r0 = None"
    and tc: "tool_calls r0 = Some tcs0"
    by (simp_all add: r0_def tcs0_def init_response_fields)
  have p: "pending (fresh_gen cs) = cs" by (simp add: fresh_gen_def)
  have it: "iterate_stream loads r0 = Some ?res" by (rule iterate_stream_Some [OF s])
  have kept: "tool_call_chunk_list (response_after ?res) = chunk_list_after None cs"
    using first_run_state(4) [OF s f, of loads False] by (simp add: p cl)
  have lst: "\<forall>pre sc post. cs = pre @ Structured sc # post \<and> (\<forall>c\<in>set post. \<exists>s. c = Plain s) \<longrightarrow>
              tool_call_chunk_list (response_after ?res) = sc_tool_calls sc"
    unfolding kept by (auto simp: chunk_list_after_last_structured)
  have fin: "(\<forall>t\<in>set (final_chunks cs). decodable loads t) \<longrightarrow>
              raised ?res = None \<and>
              tool_calls (response_after ?res) = Some (tcs0 @ map (block_of loads) (final_chunks cs))"
  proof (cases "cs = []")
    case True
    with p have pe: "pending (fresh_gen cs) = []" by simp
    have "drive loads False Fresh r0 = ([], None, r0\<lparr>stream_field := Some (exhaust (fresh_gen cs))\<rparr>)"
      by (rule drive_Fresh_Nil [OF s pe f])
    then show ?thesis
      using True tc by (simp add: raised_def response_after_def final_chunks_def)
  next
    case False
    with p have pne: "pending (fresh_gen cs) \<noteq> []" by simp
    show ?thesis
    proof
      assume all: "\<forall>t\<in>set (final_chunks cs). decodable loads t"
      then have all': "\<forall>t\<in>set (case chunk_list_after (tool_call_chunk_list r0) (pending (fresh_gen cs)) of
                         None \<Rightarrow> [] | Some ts \<Rightarrow> ts). decodable loads t"
        by (simp add: p cl final_chunks_def)
      have "raised ?res = None"
        using first_run_ok_iff [OF s f pne tc, of loads False] all' by simp
      moreover have "tool_calls (response_after ?res) = Some (tcs0 @ map (block_of loads) (final_chunks cs))"
        using first_run_tool_calls [OF s f pne tc all', of False] by (simp add: p cl final_chunks_def)
      ultimately show "raised ?res = None \<and>
              tool_calls (response_after ?res) = Some (tcs0 @ map (block_of loads) (final_chunks cs))"
        by simp
    qed
  qed
  have
    "\<exists>res. iterate_stream loads r0 = Some res \<and>
           tool_call_chunk_list (response_after res) = chunk_list_after None cs \<and>
           (\<forall>pre sc post. cs = pre @ Structured sc # post \<and> (\<forall>c\<in>set post. \<exists>s. c = Plain s) \<longrightarrow>
              tool_call_chunk_list (response_after res) = sc_tool_calls sc) \<and>
           ((\<forall>t\<in>set (final_chunks cs). decodable loads t) \<longrightarrow>
              raised res = None \<and>
              tool_calls (response_after res) =
                Some (tcs0 @ map (block_of loads) (final_chunks cs)))"
  proof (intro exI conjI)
    show "iterate_stream loads r0 = Some ?res" by (rule it)
    show "tool_call_chunk_list (response_after ?res) = chunk_list_after None cs" by (rule kept)
    show "\<forall>pre sc post. cs = pre @ Structured sc # post \<and> (\<forall>c\<in>set post. \<exists>s. c = Plain s) \<longrightarrow>
              tool_call_chunk_list (response_after ?res) = sc_tool_calls sc" by (rule lst)
    show "(\<forall>t\<in>set (final_chunks cs). decodable loads t) \<longrightarrow>
              raised ?res = None \<and>
              tool_calls (response_after ?res) = Some (tcs0 @ map (block_of loads) (final_chunks cs))"
      by (rule fin)
  qed
  then show ?thesis by (simp add: Let_def r0_def tcs0_def)
qed

theorem tool_call_list_replaced_witness:
  "tool_call_chunk_list
     (after_run [tool_chunk [] [fragment 0 ''call_1'' ''f'' ''1''],
                 tool_chunk [] [fragment 0 [] [] ''2'']])
     = Some [fragment 0 [] [] ''2''] \<and>
   final_chunks [tool_chunk [] [fragment 0 ''call_1'' ''f'' ''1''],
                 tool_chunk [] [fragment 0 [] [] ''2'']]
     = [fragment 0 [] [] ''2''] \<and>
   decodable sample_loads (fragment 0 [] [] ''2'') \<and>
   tool_calls
     (after_run [tool_chunk [] [fragment 0 ''call_1'' ''f'' ''1''],
                 tool_chunk [] [fragment 0 [] [] ''2'']])
     = Some [block_of sample_loads (fragment 0 [] [] ''2'')]"
proof -
  have d: "\<forall>t\<in>set (final_chunks [tool_chunk [] [fragment 0 ''call_1'' ''f'' ''1''],
                             tool_chunk [] [fragment 0 [] [] ''2'']]).
             decodable sample_loads t"
    by (simp add: final_chunks_def tool_chunk_def decodable_def fragment_def sample_loads_def)
  from tool_call_list_replaced
         [of None None None "()" None
             "[tool_chunk [] [fragment 0 ''call_1'' ''f'' ''1''],
               tool_chunk [] [fragment 0 [] [] ''2'']]" None sample_loads] d
  show ?thesis
    by (auto simp: Let_def after_run_def streaming_def final_chunks_def tool_chunk_def
                   decodable_def fragment_def sample_loads_def)
qed

text \<open>
  C6 says that arguments that are not valid JSON always surface as a decode error. The
  entries are handled in list order and an entry without a function record raises
  \<open>AttributeError\<close> at \<open>tool_call_chunk.function.name\<close>; when such an entry comes first,
  that is the exception the caller gets, and the entry with the malformed arguments is
  never reached.
\<close>

theorem attribute_error_before_decode_error:
  "sample_loads ''1}'' = None \<and>
   raised (the (iterate_stream sample_loads
     (streaming [tool_chunk []
        [\<lparr> tc_index = 0, tc_id = ''c1'', tc_type = ''function'', tc_function = None \<rparr>,
         fragment 1 ''c2'' ''g'' ''1}'']])))
     = Some AttributeError"
  by code_simp

text \<open>
  C6 as the code has it: when the list kept at the end of the stream has an entry whose
  arguments are not valid JSON, the run of the stream view ends with an exception and
  never yields the final pair, so the invocation is not dropped silently; the exception
  is the decode error whenever every entry before it has a function record.
\<close>

theorem malformed_arguments_raise:
  "final_chunks cs = pre @ t # post \<Longrightarrow> tc_function t = Some f \<Longrightarrow>
   loads (fn_arguments f) = None \<Longrightarrow>
   (let r0 = init_response txt emb imgs rw prs (Some (fresh_gen cs)) tcs in
      \<exists>res. iterate_stream loads r0 = Some res \<and>
            raised res \<noteq> None \<and>
            (\<forall>d. (True, d) \<notin> set (emitted res)) \<and>
            ((\<forall>p\<in>set pre. tc_function p \<noteq> None) \<longrightarrow> raised res = Some JSONDecodeError))"
proof -
  assume fc: "final_chunks cs = pre @ t # post" and tf: "tc_function t = Some f"
    and bad: "loads (fn_arguments f) = None"
  define r0 where "r0 = init_response txt emb imgs rw prs (Some (fresh_gen cs)) tcs"
  let ?res = "drive loads False Fresh r0"
  have s: "stream_field r0 = Some (fresh_gen cs)" and f: "\<not> is_stream_exhausted_field r0"
    and cl: "tool_call_chunk_list r0 = None"
    and tc: "tool_calls r0 = Some (case tcs of None \<Rightarrow> [] | Some l \<Rightarrow> l)"
    by (simp_all add: r0_def init_response_fields)
  have p: "pending (fresh_gen cs) = cs" by (simp add: fresh_gen_def)
  from fc have ne: "cs \<noteq> []" by (auto simp: final_chunks_def)
  with p have pne: "pending (fresh_gen cs) \<noteq> []" by simp
  from ne have dne: "map chunk_text cs \<noteq> []" by simp
  from fc have kept: "chunk_list_after (tool_call_chunk_list r0) (pending (fresh_gen cs)) =
                        Some (pre @ t # post)"
    by (simp add: p cl final_chunks_def split: option.splits)
  have nd: "\<not> decodable loads t" by (simp add: decodable_def tf bad)
  have it: "iterate_stream loads r0 = Some ?res" by (rule iterate_stream_Some [OF s])
  have err: "raised ?res \<noteq> None"
    using first_run_ok_iff [OF s f pne tc, of loads False] nd by (simp add: kept)
  have "emitted ?res = map (Pair False) (butlast (map chunk_text cs))"
    using first_run_trace(1) [OF s f pne, of loads False] err
    by (simp add: emitted_def emitted_trace [OF dne] p)
  then have nofinal: "\<forall>d. (True, d) \<notin> set (emitted ?res)" by auto
  have kind: "(\<forall>p\<in>set pre. tc_function p \<noteq> None) \<longrightarrow> raised ?res = Some JSONDecodeError"
  proof
    assume "\<forall>p\<in>set pre. tc_function p \<noteq> None"
    from first_run_decode_error [where loads = loads and f = f, OF s f pne tc kept this tf bad]
    show "raised ?res = Some JSONDecodeError" .
  qed
  have
    "\<exists>res. iterate_stream loads r0 = Some res \<and>
            raised res \<noteq> None \<and>
            (\<forall>d. (True, d) \<notin> set (emitted res)) \<and>
            ((\<forall>p\<in>set pre. tc_function p \<noteq> None) \<longrightarrow> raised res = Some JSONDecodeError)"
  proof (intro exI conjI)
    show "iterate_stream loads r0 = Some ?res" by (rule it)
    show "raised ?res \<noteq> None" by (rule err)
    show "\<forall>d. (True, d) \<notin> set (emitted ?res)" by (rule nofinal)
    show "(\<forall>p\<in>set pre. tc_function p \<noteq> None) \<longrightarrow> raised ?res = Some JSONDecodeError"
      by (rule kind)
  qed
  then show ?thesis by (simp add: Let_def r0_def)
qed

theorem malformed_arguments_raise_witness:
  "final_chunks [tool_chunk ''b'' [fragment 0 ''c1'' ''f'' ''1}'']]
     = [] @ fragment 0 ''c1'' ''f'' ''1}'' # [] \<and>
   tc_function (fragment 0 ''c1'' ''f'' ''1}'') = Some \<lparr> fn_name = ''f'', fn_arguments = ''1}'' \<rparr> \<and>
   sample_loads (fn_arguments \<lparr> fn_name = ''f'', fn_arguments = ''1}'' \<rparr>) = None \<and>
   raised (the (iterate_stream sample_loads
                  (streaming [tool_chunk ''b'' [fragment 0 ''c1'' ''f'' ''1}'']])))
     = Some JSONDecodeError"
proof -
  have a: "final_chunks [tool_chunk ''b'' [fragment 0 ''c1'' ''f'' ''1}'']]
             = [] @ fragment 0 ''c1'' ''f'' ''1}'' # []"
    by (simp add: final_chunks_def tool_chunk_def)
  have b: "tc_function (fragment 0 ''c1'' ''f'' ''1}'')
             = Some \<lparr> fn_name = ''f'', fn_arguments = ''1}'' \<rparr>"
    by (simp add: fragment_def)
  have c: "sample_loads (fn_arguments \<lparr> fn_name = ''f'', fn_arguments = ''1}'' \<rparr>) = None"
    by (simp add: sample_loads_def)
  from malformed_arguments_raise
         [where loads = sample_loads, OF a b c, of None None None "()" None None]
  show ?thesis
    using a b c by (auto simp: Let_def streaming_def)
qed

end
